theory Spec2Isabelle
  imports
    Complex_Main
    "HOL-Library.Word"
    "HOL-Library.Multiset"
    "HOL-Library.Log_Nat"
    "HOL-Library.Char_ord"
    "HOL-Library.List_Lexorder"
begin

section \<open>Data model\<close>

text \<open>
  The program is a single Go file, \<^verbatim>\<open>main.go\<close>: it reads the mount table, filters it
  by filesystem type, queries each mount with \<^verbatim>\<open>statfs\<close>, sorts and prints.

  Go's \<^verbatim>\<open>uint64\<close> is a 64-bit word: \<open>+\<close>, \<open>-\<close> and \<open>*\<close> wrap around modulo \<open>2 ^ 64\<close>.
\<close>

type_synonym uint64 = "64 word"

text \<open>
  A \<^verbatim>\<open>float64\<close> is a finite rational, an infinity or NaN. Every binary64 value is one of
  these (not every rational is a binary64 value, so a statement about all values of this
  type covers all of the program's). Signed zeros are not told apart: no comparison of
  the program does.
\<close>

datatype float64 = Finite rat | PosInf | NegInf | NaN

text \<open>Go's comparisons \<^verbatim>\<open>>=\<close> and \<^verbatim>\<open>>\<close> on \<^verbatim>\<open>float64\<close>: false whenever an operand is NaN.\<close>

fun f64_ge :: "float64 \<Rightarrow> float64 \<Rightarrow> bool" where
  "f64_ge NaN _ = False"
| "f64_ge _ NaN = False"
| "f64_ge PosInf _ = True"
| "f64_ge _ NegInf = True"
| "f64_ge NegInf _ = False"
| "f64_ge _ PosInf = False"
| "f64_ge (Finite x) (Finite y) = (y \<le> x)"

fun f64_gt :: "float64 \<Rightarrow> float64 \<Rightarrow> bool" where
  "f64_gt NaN _ = False"
| "f64_gt _ NaN = False"
| "f64_gt _ PosInf = False"
| "f64_gt NegInf _ = False"
| "f64_gt PosInf _ = True"
| "f64_gt _ NegInf = True"
| "f64_gt (Finite x) (Finite y) = (y < x)"

definition is_NaN :: "float64 \<Rightarrow> bool" where
  "is_NaN x = (case x of NaN \<Rightarrow> True | _ \<Rightarrow> False)"

definition is_Inf :: "float64 \<Rightarrow> bool" where
  "is_Inf x = (case x of PosInf \<Rightarrow> True | NegInf \<Rightarrow> True | _ \<Rightarrow> False)"

text \<open>The struct \<^verbatim>\<open>FS\<close> (lines 29-37).\<close>

record FS =
  Device :: string
  Mount :: string
  Type :: string
  Total :: uint64
  Free :: uint64
  Used :: uint64
  Usage :: float64

text \<open>
  The fields of \<^verbatim>\<open>syscall.Statfs_t\<close> that the program reads. \<^verbatim>\<open>Bsize\<close> is an \<^verbatim>\<open>int64\<close>
  there; the conversion \<^verbatim>\<open>uint64(s.Bsize)\<close> keeps its 64 bits, so the field is held as
  the word the conversion yields.
\<close>

record Statfs_t =
  Blocks :: uint64
  Bsize :: uint64
  Bavail :: uint64

text \<open>A failed system call returns an error number.\<close>

type_synonym errno = nat

text \<open>
  Indexing a slice out of range is a run-time panic in Go. A mount entry is a
  \<^verbatim>\<open>[]string\<close>, read at the indices 0, 1 and 2.
\<close>

datatype panic = IndexOutOfRange

section \<open>Mount source reader\<close>

text \<open>
  The loop of \<^verbatim>\<open>readMounts\<close> (lines 105-111), on the fields that \<^verbatim>\<open>strings.Fields\<close> yields
  for each line of the mount table: a line of fewer than three fields is dropped, and of
  any other line the first three fields make a mount entry.
\<close>

fun readMounts_loop :: "string list list \<Rightarrow> string list list \<Rightarrow> string list list" where
  "readMounts_loop [] out = out"
| "readMounts_loop (p # lines) out =
     (if 3 \<le> length p then readMounts_loop lines (out @ [[p ! 0, p ! 1, p ! 2]])
      else readMounts_loop lines out)"

section \<open>Mount filter\<close>

text \<open>\<^verbatim>\<open>shouldIncludeFS\<close> (lines 115-122): the loop returns at the first match.\<close>

fun shouldIncludeFS :: "string \<Rightarrow> string list \<Rightarrow> bool" where
  "shouldIncludeFS fsType [] = True"
| "shouldIncludeFS fsType (ex # excludeTypes) =
     (if ex \<noteq> [] \<and> fsType = ex then False else shouldIncludeFS fsType excludeTypes)"

text \<open>
  \<^verbatim>\<open>filterMounts\<close> (lines 124-132): the loop over \<^verbatim>\<open>mounts\<close>, with the slice
  \<^verbatim>\<open>filtered\<close> it appends to. Reading \<^verbatim>\<open>m[2]\<close> panics on an entry of fewer than three
  strings.
\<close>

fun filterMounts_loop ::
  "string list list \<Rightarrow> string list \<Rightarrow> string list list \<Rightarrow> panic + string list list" where
  "filterMounts_loop [] excludeTypes filtered = Inr filtered"
| "filterMounts_loop (m # mounts) excludeTypes filtered =
     (if length m \<le> 2 then Inl IndexOutOfRange
      else if shouldIncludeFS (m ! 2) excludeTypes
        then filterMounts_loop mounts excludeTypes (filtered @ [m])
        else filterMounts_loop mounts excludeTypes filtered)"

definition filterMounts :: "string list list \<Rightarrow> string list \<Rightarrow> panic + string list list" where
  "filterMounts mounts excludeTypes = filterMounts_loop mounts excludeTypes []"

text \<open>
  \<^verbatim>\<open>strings.Split(s, ",")\<close> of Go's standard library, as \<^verbatim>\<open>main\<close> calls it on the
  \<^verbatim>\<open>-x\<close> flag (line 78): the pieces of \<open>s\<close> between the separators, so the empty string
  gives one empty piece and a trailing comma gives a last empty piece.
\<close>

fun strings_Split :: "string \<Rightarrow> char \<Rightarrow> string list" where
  "strings_Split [] sep = [[]]"
| "strings_Split (c # s) sep =
     (if c = sep then [] # strings_Split s sep
      else (case strings_Split s sep of
              [] \<Rightarrow> [[c]]
            | piece # pieces \<Rightarrow> (c # piece) # pieces))"

text \<open>Lines 78-79 of \<^verbatim>\<open>main\<close>: split the flag, then filter.\<close>

definition main_filter :: "string list list \<Rightarrow> string \<Rightarrow> panic + string list list" where
  "main_filter mounts ExcludeTypes = filterMounts mounts (strings_Split ExcludeTypes (CHR '',''))"

section \<open>Usage analyzer\<close>

text \<open>
  Line 160 converts two \<^verbatim>\<open>uint64\<close> values to \<^verbatim>\<open>float64\<close>, divides and multiplies by 100.
  Each of these IEEE-754 operations returns the exact result rounded to the nearest
  binary64 value, ties to the even significand. \<open>round_binary64\<close> is that rounding for
  values in the normal range (53 significant bits, no overflow, no subnormals), which is
  where all values of line 160 lie: the operands are at most \<open>2 ^ 64\<close>, the divisor is at
  least 1.
\<close>

definition pow2 :: "int \<Rightarrow> rat" where
  "pow2 e = (if 0 \<le> e then 2 ^ nat e else 1 / 2 ^ nat (- e))"

text \<open>\<open>ilog2 q\<close> is the binary exponent of a positive \<open>q\<close>: \<open>2 ^ e \<le> q < 2 ^ (e + 1)\<close>.\<close>

definition ilog2 :: "rat \<Rightarrow> int" where
  "ilog2 q = (case quotient_of q of (n, d) \<Rightarrow>
     let e = bitlen n - bitlen d in if pow2 e \<le> q then e else e - 1)"

definition round_half_even :: "rat \<Rightarrow> int" where
  "round_half_even q =
     (let f = \<lfloor>q\<rfloor>; r = q - of_int f
      in if r < 1 / 2 then f else if 1 / 2 < r then f + 1 else if even f then f else f + 1)"

definition round_binary64 :: "rat \<Rightarrow> rat" where
  "round_binary64 q =
     (if q = 0 then 0
      else let ulp = pow2 (ilog2 \<bar>q\<bar> - 52) in of_int (round_half_even (q / ulp)) * ulp)"

text \<open>\<^verbatim>\<open>float64(used) / float64(total) * 100\<close> (line 160), evaluated only when \<^verbatim>\<open>total > 0\<close>.\<close>

definition usagePercent :: "uint64 \<Rightarrow> uint64 \<Rightarrow> float64" where
  "usagePercent used total' =
     Finite (round_binary64
       (round_binary64 (round_binary64 (of_int (uint used)) / round_binary64 (of_int (uint total')))
        * 100))"

text \<open>
  The body of the loop after a successful query (lines 155-171): the derived sizes, the
  guarded division and the struct appended to \<^verbatim>\<open>list\<close>. The caller has checked that
  \<^verbatim>\<open>m\<close> has the indices 0, 1 and 2.
\<close>

definition analyze_entry :: "string list \<Rightarrow> Statfs_t \<Rightarrow> FS" where
  "analyze_entry m s =
     (let total' = Blocks s * Bsize s;
          free = Bavail s * Bsize s;
          used = total' - free;
          usage = (if 0 < total' then usagePercent used total' else Finite 0)
      in \<lparr>Device = m ! 0, Mount = m ! 1, Type = m ! 2,
          Total = total', Free = free, Used = used, Usage = usage\<rparr>)"

text \<open>
  What \<^verbatim>\<open>analyze\<close> writes to its logger: one entry per \<^verbatim>\<open>logger.Printf\<close> call, with the
  arguments of the call.
\<close>

datatype log_entry =
  LogCancelled
  | LogProgress nat nat
  | LogWarning string errno

text \<open>
  \<^verbatim>\<open>analyze\<close> (lines 134-174). Its environment is explicit:
  \<^item> \<open>cancelled i\<close>: whether \<^verbatim>\<open>ctx.Done()\<close> is closed when the \<^verbatim>\<open>select\<close> of iteration \<open>i\<close>
    runs (the signal handler of \<^verbatim>\<open>main\<close> closes it asynchronously);
  \<^item> \<open>statfs i path\<close>: what \<^verbatim>\<open>syscall.Statfs\<close> answers to the query of iteration \<open>i\<close>.
  The state of the loop is the index \<open>i\<close>, the rest of \<^verbatim>\<open>mounts\<close>, the slice \<^verbatim>\<open>list\<close> and
  the log entries \<open>out\<close> written so far; \<open>n\<close> is \<^verbatim>\<open>len(mounts)\<close>. The result is the log and either the
  returned slice or the panic that ended the program.
\<close>

fun analyze_loop ::
  "(nat \<Rightarrow> bool) \<Rightarrow> (nat \<Rightarrow> string \<Rightarrow> errno + Statfs_t) \<Rightarrow> nat \<Rightarrow> nat \<Rightarrow>
   string list list \<Rightarrow> FS list \<Rightarrow> log_entry list \<Rightarrow> log_entry list \<times> (panic + FS list)" where
  "analyze_loop cancelled statfs n i [] list out = (out, Inr list)"
| "analyze_loop cancelled statfs n i (m # mounts) list out =
     (if cancelled i then (out @ [LogCancelled], Inr list)
      else
        let out1 = (if i mod 10 = 0 then out @ [LogProgress i n] else out) in
        if length m \<le> 1 then (out1, Inl IndexOutOfRange)
        else
          (case statfs i (m ! 1) of
             Inl err \<Rightarrow>
               analyze_loop cancelled statfs n (Suc i) mounts list (out1 @ [LogWarning (m ! 1) err])
           | Inr s \<Rightarrow>
               if length m \<le> 2 then (out1, Inl IndexOutOfRange)
               else analyze_loop cancelled statfs n (Suc i) mounts (list @ [analyze_entry m s]) out1))"

definition analyze ::
  "string list list \<Rightarrow> (nat \<Rightarrow> string \<Rightarrow> errno + Statfs_t) \<Rightarrow> (nat \<Rightarrow> bool) \<Rightarrow>
   log_entry list \<times> (panic + FS list)" where
  "analyze mounts statfs cancelled = analyze_loop cancelled statfs (length mounts) 0 mounts [] []"

section \<open>Color tiers\<close>

record ColorScheme =
  Low :: string
  Medium :: string
  High :: string
  Critical :: string
  Reset :: string

text \<open>The table \<^verbatim>\<open>Colors\<close> (lines 47-53); \<^verbatim>\<open>\033\<close> is the escape character, byte 27.\<close>

definition Colors :: ColorScheme where
  "Colors =
     \<lparr>Low = CHR 0x1B # ''[32m'',
      Medium = CHR 0x1B # ''[33m'',
      High = CHR 0x1B # ''[31m'',
      Critical = CHR 0x1B # ''[31;1m'',
      Reset = CHR 0x1B # ''[0m''\<rparr>"

text \<open>\<^verbatim>\<open>ForUsage\<close> (lines 196-210).\<close>

definition ForUsage :: "ColorScheme \<Rightarrow> float64 \<Rightarrow> float64 \<Rightarrow> float64 \<Rightarrow> bool \<Rightarrow> string" where
  "ForUsage c usage warn crit noColor =
     (if noColor then []
      else if f64_ge usage crit then Critical c
      else if f64_ge usage warn then High c
      else if f64_ge usage (Finite 70) then Medium c
      else Low c)"

section \<open>Sorter\<close>

text \<open>
  The closure that \<^verbatim>\<open>sortFS\<close> hands to \<^verbatim>\<open>sort.Slice\<close> (lines 213-224), on the two entries
  it reads from the slice. Strings compare bytewise and lexicographically, \<^verbatim>\<open>uint64\<close>
  values as unsigned numbers.
\<close>

definition sortFS_less :: "string \<Rightarrow> FS \<Rightarrow> FS \<Rightarrow> bool" where
  "sortFS_less sortBy a b =
     (if sortBy = ''mount'' then Mount a < Mount b
      else if sortBy = ''usage'' then f64_gt (Usage a) (Usage b)
      else if sortBy = ''size'' then Total b < Total a
      else Mount a < Mount b)"

text \<open>
  \<^verbatim>\<open>sort.Slice\<close> belongs to Go's standard library, not to this repository. Its
  documentation is its model here: it sorts the slice in place by swapping elements,
  guided by \<^verbatim>\<open>less\<close>, which tells whether one element "must sort before" another (so no
  element before itself) and "must describe a transitive ordering" (if \<^verbatim>\<open>less\<close> holds for
  two consecutive pairs it holds for the outer pair, and likewise when it fails for
  both); and "the sort is not guaranteed to be stable: equal elements may be reversed
  from their original order". So \<open>sort_Slice less' x x'\<close> says that \<open>x'\<close> is a content
  the slice \<open>x\<close> may have after the call: a rearrangement of \<open>x\<close>, in which no element is
  less than an earlier one when \<^verbatim>\<open>less\<close> is a transitive ordering of the elements.
\<close>

definition transitive_ordering :: "('a \<Rightarrow> 'a \<Rightarrow> bool) \<Rightarrow> 'a set \<Rightarrow> bool" where
  "transitive_ordering less' A \<longleftrightarrow>
     (\<forall>a \<in> A. \<not> less' a a) \<and>
     (\<forall>a \<in> A. \<forall>b \<in> A. \<forall>c \<in> A.
        (less' a b \<and> less' b c \<longrightarrow> less' a c) \<and> (\<not> less' a b \<and> \<not> less' b c \<longrightarrow> \<not> less' a c))"

definition sort_Slice :: "('a \<Rightarrow> 'a \<Rightarrow> bool) \<Rightarrow> 'a list \<Rightarrow> 'a list \<Rightarrow> bool" where
  "sort_Slice less' x x' \<longleftrightarrow>
     mset x' = mset x \<and>
     (transitive_ordering less' (set x) \<longrightarrow> sorted_wrt (\<lambda>a b. \<not> less' b a) x')"

text \<open>\<^verbatim>\<open>sortFS\<close> (lines 212-225): \<open>list'\<close> is the slice after the call.\<close>

definition sortFS :: "FS list \<Rightarrow> string \<Rightarrow> FS list \<Rightarrow> bool" where
  "sortFS list sortBy list' \<longleftrightarrow> sort_Slice (sortFS_less sortBy) list list'"


section \<open>Renderer\<close>

text \<open>The struct \<^verbatim>\<open>Config\<close> (lines 18-27).\<close>

record Config =
  ShowAll :: bool
  HumanReadable :: bool
  OutputFormat :: string
  SortBy :: string
  ExcludeTypes :: string
  WarnThreshold :: float64
  CritThreshold :: float64
  NoColor :: bool

text \<open>\<^verbatim>\<open>fmt.Sprintf("%d", b)\<close>: the decimal digits of an unsigned number.\<close>

fun decimal :: "nat \<Rightarrow> string" where
  "decimal n =
     (if n < 10 then [''0123456789'' ! n]
      else decimal (n div 10) @ [''0123456789'' ! (n mod 10)])"

text \<open>
  \<^verbatim>\<open>fmtBytes\<close> (lines 176-194). Its last branch (lines 185-193) is floating-point
  arithmetic of Go's library (\<^verbatim>\<open>math.Log\<close>, \<^verbatim>\<open>math.Pow\<close>, the verb \<^verbatim>\<open>%.1f\<close>), whose results
  this development does not define: that branch is the parameter \<open>humanize\<close>.
\<close>

definition fmtBytes :: "(uint64 \<Rightarrow> string) \<Rightarrow> uint64 \<Rightarrow> bool \<Rightarrow> string" where
  "fmtBytes humanize b humanReadable =
     (if \<not> humanReadable then decimal (unat b)
      else if b < 1024 then decimal (unat b) @ '' B''
      else humanize b)"

text \<open>
  What the renderer writes to standard output: one entry per call, with the format and
  the arguments of the call. The conversion of the arguments to text belongs to Go's
  \<^verbatim>\<open>fmt\<close> and \<^verbatim>\<open>encoding/json\<close>.
\<close>

datatype fmt_arg = ArgString string | ArgUint uint64 | ArgFloat float64

datatype stdout_write =
  Println string
  | Printf string "fmt_arg list"
  | EncodeJSON "FS list"

text \<open>
  Go passes the slice \<^verbatim>\<open>list\<close> by reference, so each display function returns, beside
  what it writes, the content of the slice when it ends. \<open>FormatFloat\<close> stands for
  \<^verbatim>\<open>strconv.FormatFloat(_, 'f', 2, 64)\<close>. \<open>EncodeJSON\<close> stands for the call of the encoder,
  whatever it prints and whether or not it reports an error (which \<^verbatim>\<open>displayJSON\<close> only
  logs).
\<close>

definition displayJSON :: "FS list \<Rightarrow> stdout_write list \<times> FS list" where
  "displayJSON list = ([EncodeJSON list], list)"

definition displayCSV :: "FS list \<Rightarrow> stdout_write list \<times> FS list" where
  "displayCSV list =
     (Println ''Device,Mount,Type,Total,Used,Free,Usage'' #
      map (\<lambda>d. Printf ''%s,%s,%s,%d,%d,%d,%.2f\<newline>''
                 [ArgString (Device d), ArgString (Mount d), ArgString (Type d),
                  ArgUint (Total d), ArgUint (Used d), ArgUint (Free d), ArgFloat (Usage d)])
        list,
      list)"

definition displayTable ::
  "(uint64 \<Rightarrow> string) \<Rightarrow> (float64 \<Rightarrow> string) \<Rightarrow> FS list \<Rightarrow> Config \<Rightarrow>
   stdout_write list \<times> FS list" where
  "displayTable humanize FormatFloat list config =
     (Printf ''%-25s %-25s %-8s %-10s %-10s %-10s %s\<newline>''
        [ArgString ''Device'', ArgString ''Mount'', ArgString ''Type'', ArgString ''Total'',
         ArgString ''Used'', ArgString ''Free'', ArgString ''Usage''] #
      map (\<lambda>d.
          let color = ForUsage Colors (Usage d) (WarnThreshold config) (CritThreshold config)
                        (NoColor config);
              reset = (if color \<noteq> [] then Reset Colors else [])
          in Printf ''%-25s %-25s %-8s %-10s %-10s %-10s %s%s%%%s\<newline>''
               [ArgString (Device d), ArgString (Mount d), ArgString (Type d),
                ArgString (fmtBytes humanize (Total d) (HumanReadable config)),
                ArgString (fmtBytes humanize (Used d) (HumanReadable config)),
                ArgString (fmtBytes humanize (Free d) (HumanReadable config)),
                ArgString color, ArgString (FormatFloat (Usage d)), ArgString reset])
        list,
      list)"

definition display ::
  "(uint64 \<Rightarrow> string) \<Rightarrow> (float64 \<Rightarrow> string) \<Rightarrow> FS list \<Rightarrow> Config \<Rightarrow>
   stdout_write list \<times> FS list" where
  "display humanize FormatFloat list config =
     (if OutputFormat config = ''json'' then displayJSON list
      else if OutputFormat config = ''csv'' then displayCSV list
      else displayTable humanize FormatFloat list config)"

section \<open>Notions used in the statements\<close>

text \<open>Mount entries as \<^verbatim>\<open>readMounts\<close> builds them (line 109) have three strings.\<close>

definition well_formed :: "string list list \<Rightarrow> bool" where
  "well_formed mounts = list_all (\<lambda>m. 3 \<le> length m) mounts"

text \<open>
  The cancellation flag is set once: requested after \<open>N\<close> mounts have been processed, it
  is seen by the check of iteration \<open>N\<close> and by every later one.
\<close>

definition cancel_after :: "nat \<Rightarrow> nat \<Rightarrow> bool" where
  "cancel_after N i = (N \<le> i)"

text \<open>The number of mounts of \<open>n\<close> that the loop processes before a check sees the flag.\<close>

definition cancel_point :: "(nat \<Rightarrow> bool) \<Rightarrow> nat \<Rightarrow> nat" where
  "cancel_point cancelled n = length (takeWhile (\<lambda>i. \<not> cancelled i) [0..<n])"

text \<open>
  For a mount with its position in the list: whether its query succeeds, and the entry
  the analyzer builds from the answer.
\<close>

definition query_ok :: "(nat \<Rightarrow> string \<Rightarrow> errno + Statfs_t) \<Rightarrow> nat \<times> string list \<Rightarrow> bool" where
  "query_ok statfs = (\<lambda>(i, m). \<not> isl (statfs i (m ! 1)))"

definition entry_of :: "(nat \<Rightarrow> string \<Rightarrow> errno + Statfs_t) \<Rightarrow> nat \<times> string list \<Rightarrow> FS" where
  "entry_of statfs = (\<lambda>(i, m). analyze_entry m (projr (statfs i (m ! 1))))"

text \<open>The entries of the mounts \<open>ms\<close>, at the positions \<open>i, i + 1, ...\<close>, whose query succeeds.\<close>

definition stats_from :: "(nat \<Rightarrow> string \<Rightarrow> errno + Statfs_t) \<Rightarrow> nat \<Rightarrow> string list list \<Rightarrow> FS list" where
  "stats_from statfs i ms = map (entry_of statfs) (filter (query_ok statfs) (enumerate i ms))"

text \<open>
  Stability of a sort, key by key: the entries whose key is \<open>k\<close> stand in \<open>ys\<close> in the
  order they have in \<open>xs\<close>.
\<close>

definition stable_on :: "('a \<Rightarrow> 'k) \<Rightarrow> 'k \<Rightarrow> 'a list \<Rightarrow> 'a list \<Rightarrow> bool" where
  "stable_on key k xs ys \<longleftrightarrow> filter (\<lambda>x. key x = k) ys = filter (\<lambda>x. key x = k) xs"

text \<open>
  An environment for the examples: the query of \<^verbatim>\<open>/denied\<close> fails with \<^verbatim>\<open>EACCES\<close> (13),
  \<^verbatim>\<open>/empty\<close> has no blocks, \<^verbatim>\<open>/odd\<close> reports one available block and no blocks at all,
  \<^verbatim>\<open>/skew\<close> reports more available blocks than blocks, and every other mount has 100
  blocks of 4096 bytes, 10 of them available.
\<close>

definition statfs_example :: "nat \<Rightarrow> string \<Rightarrow> errno + Statfs_t" where
  "statfs_example i path =
     (if path = ''/denied'' then Inl 13
      else if path = ''/empty'' then Inr \<lparr>Blocks = 0, Bsize = 4096, Bavail = 0\<rparr>
      else if path = ''/odd'' then Inr \<lparr>Blocks = 0, Bsize = 4096, Bavail = 1\<rparr>
      else if path = ''/skew'' then Inr \<lparr>Blocks = 100, Bsize = 4096, Bavail = 200\<rparr>
      else Inr \<lparr>Blocks = 100, Bsize = 4096, Bavail = 10\<rparr>)"

text \<open>
  Thirteen entries for the examples of sorting: twelve disks of the same size and usage,
  mounted at \<^verbatim>\<open>/mnt/a\<close> to \<^verbatim>\<open>/mnt/l\<close>, and a larger, fuller one mounted last at \<^verbatim>\<open>/big\<close>.
\<close>

definition disk :: "char \<Rightarrow> FS" where
  "disk c =
     \<lparr>Device = ''/dev/sd'' @ [c], Mount = ''/mnt/'' @ [c], Type = ''ext4'',
      Total = 409600, Free = 40960, Used = 368640, Usage = Finite 90\<rparr>"

definition big_disk :: FS where
  "big_disk =
     \<lparr>Device = ''/dev/sdm'', Mount = ''/big'', Type = ''ext4'',
      Total = 819200, Free = 40960, Used = 778240, Usage = Finite 95\<rparr>"

definition disks :: "FS list" where
  "disks = map disk ''abcdefghijkl'' @ [big_disk]"

text \<open>
  A rearrangement of these entries that starts with the larger disk. (From Go 1.19 on
  \<^verbatim>\<open>sort.Slice\<close> is a pattern-defeating quicksort. On these thirteen elements, under the
  keys \<^verbatim>\<open>usage\<close> and \<^verbatim>\<open>size\<close>, it takes the seventh as the pivot and moves it to the
  front, exchanges the second element with the last, exchanges the first two, and
  leaves the rest to an insertion sort that finds nothing to move: this order.)
\<close>

definition disks_sorted :: "FS list" where
  "disks_sorted = big_disk # map disk ''gcdefahijklb''"

text \<open>The usage tiers of the specification, and the color of each in a scheme.\<close>

datatype tier = TierLow | TierMedium | TierHigh | TierCritical

definition tier_of :: "float64 \<Rightarrow> float64 \<Rightarrow> float64 \<Rightarrow> tier" where
  "tier_of usage warn crit =
     (if f64_ge usage crit then TierCritical
      else if f64_ge usage warn then TierHigh
      else if f64_ge usage (Finite 70) then TierMedium
      else TierLow)"

fun tier_color :: "ColorScheme \<Rightarrow> tier \<Rightarrow> string" where
  "tier_color c TierLow = Low c"
| "tier_color c TierMedium = Medium c"
| "tier_color c TierHigh = High c"
| "tier_color c TierCritical = Critical c"

section \<open>Mount filter: properties\<close>

lemma shouldIncludeFS_iff:
  "shouldIncludeFS fsType excludeTypes \<longleftrightarrow> fsType \<notin> set excludeTypes - {[]}"
  by (induction excludeTypes) auto

lemma filterMounts_loop_eq:
  "well_formed mounts \<Longrightarrow>
   filterMounts_loop mounts excludeTypes filtered =
     Inr (filtered @ filter (\<lambda>m. shouldIncludeFS (m ! 2) excludeTypes) mounts)"
  by (induction mounts arbitrary: filtered) (auto simp: well_formed_def)

lemma filterMounts_eq:
  "well_formed mounts \<Longrightarrow>
   filterMounts mounts excludeTypes =
     Inr (filter (\<lambda>m. m ! 2 \<notin> set excludeTypes - {[]}) mounts)"
  by (simp add: filterMounts_def filterMounts_loop_eq shouldIncludeFS_iff)

lemma readMounts_loop_well_formed:
  "well_formed out \<Longrightarrow> well_formed (readMounts_loop lines out)"
  by (induction lines arbitrary: out) (simp_all add: well_formed_def)

lemma filterMounts_well_formed:
  assumes "well_formed mounts" "filterMounts mounts excludeTypes = Inr filtered"
  shows "well_formed filtered"
  using assms by (auto simp: filterMounts_eq well_formed_def list_all_iff)

text \<open>
  So the entries that \<^verbatim>\<open>main\<close> hands to the filter and to the analyzer are well formed,
  and neither panics on them.
\<close>

text \<open>
  Claim C5. On mount entries of three strings, the filter returns exactly the entries
  whose type is not one of the non-empty names of the exclusion list, in the order of
  the input; this holds for the list as \<^verbatim>\<open>main\<close> splits it from the flag. An empty name in
  the list, at its head or at its end (a trailing comma), changes nothing, and the empty
  flag excludes nothing. Excluding \<^verbatim>\<open>proc,tmpfs\<close> from one entry of each of these types
  leaves nothing.
\<close>

theorem filterMounts_exact_subset:
  "well_formed mounts \<Longrightarrow>
     filterMounts mounts excludeTypes =
       Inr (filter (\<lambda>m. m ! 2 \<notin> set excludeTypes - {''''}) mounts)
   \<and> main_filter mounts flag =
       Inr (filter (\<lambda>m. m ! 2 \<notin> set (strings_Split flag (CHR '','')) - {''''}) mounts)
   \<and> filterMounts mounts ('''' # excludeTypes) = filterMounts mounts excludeTypes
   \<and> filterMounts mounts (excludeTypes @ ['''']) = filterMounts mounts excludeTypes
   \<and> main_filter mounts '''' = Inr mounts
   \<and> main_filter [[d1, p1, ''proc''], [d2, p2, ''tmpfs'']] ''proc,tmpfs'' = Inr []"
proof (intro conjI)
  assume wf: "well_formed mounts"
  show "filterMounts mounts excludeTypes =
      Inr (filter (\<lambda>m. m ! 2 \<notin> set excludeTypes - {''''}) mounts)"
    using wf by (rule filterMounts_eq)
  show "main_filter mounts flag =
      Inr (filter (\<lambda>m. m ! 2 \<notin> set (strings_Split flag (CHR '','')) - {''''}) mounts)"
    unfolding main_filter_def using wf by (rule filterMounts_eq)
  show "filterMounts mounts ('''' # excludeTypes) = filterMounts mounts excludeTypes"
    using wf by (simp add: filterMounts_eq)
  show "filterMounts mounts (excludeTypes @ ['''']) = filterMounts mounts excludeTypes"
    using wf by (simp add: filterMounts_eq)
  show "main_filter mounts '''' = Inr mounts"
    using wf by (simp add: main_filter_def filterMounts_eq)
  have "well_formed [[d1, p1, ''proc''], [d2, p2, ''tmpfs'']]"
    by (simp add: well_formed_def)
  then show "main_filter [[d1, p1, ''proc''], [d2, p2, ''tmpfs'']] ''proc,tmpfs'' = Inr []"
    by (simp add: main_filter_def filterMounts_eq)
qed

theorem filterMounts_exact_subset_witness:
  "well_formed
     [[''/dev/sda1'', ''/'', ''ext4''], [''proc'', ''/proc'', ''proc''],
      [''/dev/sda2'', ''/home'', ''xfs'']]
   \<and> main_filter
       [[''/dev/sda1'', ''/'', ''ext4''], [''proc'', ''/proc'', ''proc''],
        [''/dev/sda2'', ''/home'', ''xfs'']]
       ''proc,''
     = Inr [[''/dev/sda1'', ''/'', ''ext4''], [''/dev/sda2'', ''/home'', ''xfs'']]"
proof -
  have wf: "well_formed
     [[''/dev/sda1'', ''/'', ''ext4''], [''proc'', ''/proc'', ''proc''],
      [''/dev/sda2'', ''/home'', ''xfs'']]"
    by (simp add: well_formed_def)
  show ?thesis
    using wf filterMounts_exact_subset [OF wf, of _ "''proc,''"] by simp
qed

section \<open>Color tiers: properties\<close>

text \<open>
  Claim C6. With color enabled, \<^verbatim>\<open>ForUsage\<close> returns the color of the tier that the
  specification's first-match rule selects: Critical from the critical threshold up,
  else High from the warning threshold up, else Medium from the fixed 70 up, else Low.
  The four colors differ, so the tier is read off the result; with color disabled the
  result is the empty string, whatever the usage. Usage 69 under the
  thresholds 70 and 90 is Low; usage 75 is Medium under any warning threshold above 75;
  usage 92 is Critical under the critical threshold 90, whatever the warning threshold.
\<close>

theorem ForUsage_tiers:
  "ForUsage Colors usage warn crit False = tier_color Colors (tier_of usage warn crit)
   \<and> ForUsage Colors usage warn crit True = []
   \<and> inj (tier_color Colors)
   \<and> tier_of usage warn crit =
       (if f64_ge usage crit then TierCritical
        else if f64_ge usage warn then TierHigh
        else if f64_ge usage (Finite 70) then TierMedium
        else TierLow)
   \<and> tier_of (Finite 69) (Finite 70) (Finite 90) = TierLow
   \<and> (f64_gt warn (Finite 75) \<longrightarrow> tier_of (Finite 75) warn (Finite 90) = TierMedium)
   \<and> tier_of (Finite 92) warn (Finite 90) = TierCritical"
proof (intro conjI impI)
  show "ForUsage Colors usage warn crit False = tier_color Colors (tier_of usage warn crit)"
    by (simp add: ForUsage_def tier_of_def)
  show "ForUsage Colors usage warn crit True = []"
    by (simp add: ForUsage_def)
  show "inj (tier_color Colors)"
  proof (rule injI)
    fix x y assume "tier_color Colors x = tier_color Colors y"
    then show "x = y"
      by (cases x; cases y) (simp_all add: Colors_def)
  qed
  show "tier_of (Finite 69) (Finite 70) (Finite 90) = TierLow"
    by (simp add: tier_of_def)
  show "tier_of (Finite 92) warn (Finite 90) = TierCritical"
    by (simp add: tier_of_def)
  show "tier_of (Finite 75) warn (Finite 90) = TierMedium" if "f64_gt warn (Finite 75)"
    using that by (cases warn) (simp_all add: tier_of_def)
qed (simp add: tier_of_def)

theorem ForUsage_tiers_witness:
  "f64_gt (Finite 80) (Finite 75)
   \<and> ForUsage Colors (Finite 75) (Finite 80) (Finite 90) False = CHR 0x1B # ''[33m''
   \<and> tier_of (Finite 75) (Finite 80) (Finite 90) = TierMedium"
  using ForUsage_tiers [of "Finite 75" "Finite 80" "Finite 90"]
  by (simp add: Colors_def)

section \<open>Usage analyzer: the loop\<close>

lemma stats_from_Nil: "stats_from statfs i [] = []"
  by (simp add: stats_from_def)

lemma stats_from_Cons:
  "stats_from statfs i (m # ms) =
     (case statfs i (m ! 1) of
        Inl err \<Rightarrow> stats_from statfs (Suc i) ms
      | Inr s \<Rightarrow> analyze_entry m s # stats_from statfs (Suc i) ms)"
  by (simp add: stats_from_def query_ok_def entry_of_def split: sum.splits)

lemma stats_from_append:
  "stats_from statfs i (xs @ ys) = stats_from statfs i xs @ stats_from statfs (i + length xs) ys"
  by (simp add: stats_from_def enumerate_append_eq)

text \<open>The number of iterations, from index \<open>i\<close> on, before a check sees the flag.\<close>

lemma seen_Cons:
  "length (takeWhile (\<lambda>j. \<not> c j) [i..<Suc (i + k)]) =
     (if c i then 0 else Suc (length (takeWhile (\<lambda>j. \<not> c j) [Suc i..<Suc (i + k)])))"
  by (simp add: upt_conv_Cons del: upt_Suc)

lemma analyze_loop_result:
  "well_formed ms \<Longrightarrow>
   snd (analyze_loop c s n i ms list out) =
     Inr (list @ stats_from s i (take (length (takeWhile (\<lambda>j. \<not> c j) [i..<i + length ms])) ms))"
proof (induction ms arbitrary: i list out)
  case Nil
  then show ?case by (simp add: stats_from_Nil)
next
  case (Cons m ms)
  from Cons.prems have m: "3 \<le> length m" and wf: "well_formed ms"
    by (simp_all add: well_formed_def)
  show ?case
  proof (cases "c i")
    case True
    then show ?thesis by (simp add: seen_Cons stats_from_Nil del: upt_Suc)
  next
    case False
    then show ?thesis
      using m Cons.IH [OF wf]
      by (simp add: seen_Cons stats_from_Cons Let_def del: upt_Suc split: sum.splits)
  qed
qed

lemma analyze_result:
  "well_formed mounts \<Longrightarrow>
   snd (analyze mounts statfs cancelled) =
     Inr (stats_from statfs 0 (take (cancel_point cancelled (length mounts)) mounts))"
  using analyze_loop_result [of mounts cancelled statfs "length mounts" 0 "[]" "[]"]
  by (simp add: analyze_def cancel_point_def)

lemma cancel_point_first:
  assumes "N \<le> n" "\<forall>i<N. \<not> cancelled i" "N < n \<longrightarrow> cancelled N"
  shows "cancel_point cancelled n = N"
proof -
  have "takeWhile (\<lambda>i. \<not> cancelled i) [0..<n] = take N [0..<n]"
    using assms by (intro takeWhile_eq_take_P_nth) auto
  then show ?thesis using assms by (simp add: cancel_point_def)
qed

lemma cancel_point_le: "cancel_point cancelled n \<le> n"
  unfolding cancel_point_def using length_takeWhile_le [of _ "[0..<n]"] by simp

lemma analyze_loop_log_append:
  "fst (analyze_loop c s n i ms list (out @ extra)) =
     out @ fst (analyze_loop c s n i ms list extra)"
  by (induction ms arbitrary: i list extra) (simp_all add: Let_def split: sum.splits)

lemma analyze_loop_log_prefix:
  "fst (analyze_loop c s n i ms list out) = out @ fst (analyze_loop c s n i ms list [])"
  using analyze_loop_log_append [of c s n i ms list out "[]"] by simp

lemma analyze_loop_cancelled_log:
  "well_formed ms \<Longrightarrow>
   length (takeWhile (\<lambda>j. \<not> c j) [i..<i + length ms]) < length ms \<Longrightarrow>
   \<exists>pre. fst (analyze_loop c s n i ms list out) = pre @ [LogCancelled]"
proof (induction ms arbitrary: i list out)
  case Nil
  then show ?case by simp
next
  case (Cons m ms)
  from Cons.prems have m: "3 \<le> length m" and wf: "well_formed ms"
    by (simp_all add: well_formed_def)
  show ?case
  proof (cases "c i")
    case True
    then show ?thesis by simp
  next
    case False
    with Cons.prems(2)
    have "length (takeWhile (\<lambda>j. \<not> c j) [Suc i..<Suc i + length ms]) < length ms"
      by (simp add: seen_Cons del: upt_Suc)
    from Cons.IH [OF wf this] False m show ?thesis
      by (simp add: Let_def split: sum.splits)
  qed
qed

lemma analyze_loop_warning:
  "well_formed ms \<Longrightarrow>
   k < length (takeWhile (\<lambda>j. \<not> c j) [i..<i + length ms]) \<Longrightarrow>
   s (i + k) (ms ! k ! 1) = Inl err \<Longrightarrow>
   LogWarning (ms ! k ! 1) err \<in> set (fst (analyze_loop c s n i ms list out))"
proof (induction ms arbitrary: i k list out)
  case Nil
  then show ?case by simp
next
  case (Cons m ms)
  from Cons.prems have m: "3 \<le> length m" and wf: "well_formed ms"
    by (simp_all add: well_formed_def)
  from Cons.prems(2) have ci: "\<not> c i"
    by (auto simp: seen_Cons simp del: upt_Suc split: if_splits)
  show ?case
  proof (cases k)
    case 0
    with Cons.prems(3) have fail: "s i (m ! 1) = Inl err" by simp
    have "LogWarning (m ! 1) err \<in> set (fst (analyze_loop c s n (Suc i) ms list
        ((if i mod 10 = 0 then out @ [LogProgress i n] else out) @ [LogWarning (m ! 1) err])))"
      by (subst analyze_loop_log_prefix) simp
    with 0 ci m fail show ?thesis
      by (simp add: Let_def)
  next
    case (Suc k')
    with Cons.prems(2) ci
    have k': "k' < length (takeWhile (\<lambda>j. \<not> c j) [Suc i..<Suc i + length ms])"
      by (simp add: seen_Cons del: upt_Suc)
    from Cons.prems(3) Suc have "s (Suc i + k') (ms ! k' ! 1) = Inl err" by simp
    from Cons.IH [OF wf k' this] Suc ci m show ?thesis
      by (simp add: Let_def split: sum.splits)
  qed
qed

lemma analyze_loop_agree:
  "\<forall>j < length (takeWhile (\<lambda>j. \<not> c j) [i..<i + length ms]). s' (i + j) = s (i + j) \<Longrightarrow>
   analyze_loop c s' n i ms list out = analyze_loop c s n i ms list out"
proof (induction ms arbitrary: i list out)
  case Nil
  then show ?case by simp
next
  case (Cons m ms)
  show ?case
  proof (cases "c i")
    case True
    then show ?thesis by simp
  next
    case False
    with Cons.prems have here: "s' i = s i"
      and later: "\<forall>j < length (takeWhile (\<lambda>j. \<not> c j) [Suc i..<Suc i + length ms]).
                    s' (Suc i + j) = s (Suc i + j)"
      by (auto simp: seen_Cons simp del: upt_Suc)
    from Cons.IH [OF later] here show ?thesis
      by (simp add: Let_def split: sum.splits)
  qed
qed

lemma analyze_loop_flag_agree:
  "\<forall>j \<le> length (takeWhile (\<lambda>j. \<not> c j) [i..<i + length ms]). c' (i + j) = c (i + j) \<Longrightarrow>
   analyze_loop c' s n i ms list out = analyze_loop c s n i ms list out"
proof (induction ms arbitrary: i list out)
  case Nil
  then show ?case by simp
next
  case (Cons m ms)
  from Cons.prems have here: "c' i = c i" by force
  show ?case
  proof (cases "c i")
    case True
    with here show ?thesis by simp
  next
    case False
    with Cons.prems
    have later: "\<forall>j \<le> length (takeWhile (\<lambda>j. \<not> c j) [Suc i..<Suc i + length ms]).
                    c' (Suc i + j) = c (Suc i + j)"
      by (auto simp: seen_Cons simp del: upt_Suc)
    from Cons.IH [OF later] here False show ?thesis
      by (simp add: Let_def split: sum.splits)
  qed
qed

lemma analyze_loop_members:
  "snd (analyze_loop c s n i ms list out) = Inr list' \<Longrightarrow> fs \<in> set list' \<Longrightarrow>
   fs \<in> set list \<or> (\<exists>j m st. m \<in> set ms \<and> s j (m ! 1) = Inr st \<and> fs = analyze_entry m st)"
proof (induction ms arbitrary: i list out)
  case Nil
  then show ?case by simp
next
  case (Cons m ms)
  show ?case
  proof (cases "c i \<or> length m \<le> 1")
    case True
    with Cons.prems show ?thesis by (auto simp: Let_def split: if_splits)
  next
    case False
    show ?thesis
    proof (cases "s i (m ! 1)")
      case (Inl err)
      with False Cons.prems(1)
      have "snd (analyze_loop c s n (Suc i) ms list
               ((if i mod 10 = 0 then out @ [LogProgress i n] else out) @ [LogWarning (m ! 1) err]))
            = Inr list'"
        by (simp add: Let_def)
      from Cons.IH [OF this Cons.prems(2)] show ?thesis by auto
    next
      case (Inr st)
      with False Cons.prems(1)
      have len: "\<not> length m \<le> 2"
        by (auto simp: Let_def split: if_splits)
      with Inr False Cons.prems(1)
      have "snd (analyze_loop c s n (Suc i) ms (list @ [analyze_entry m st])
               (if i mod 10 = 0 then out @ [LogProgress i n] else out)) = Inr list'"
        by (simp add: Let_def)
      from Cons.IH [OF this Cons.prems(2)] Inr show ?thesis by auto
    qed
  qed
qed

section \<open>Usage analyzer: properties\<close>

lemma stats_from_length: "length (stats_from statfs i ms) \<le> length ms"
  unfolding stats_from_def
  using length_filter_le [of "query_ok statfs" "enumerate i ms"] by simp

lemma stats_from_all_ok:
  assumes ok: "\<forall>j < length ms. \<not> isl (statfs (i + j) (ms ! j ! 1))"
  shows "length (stats_from statfs i ms) = length ms"
proof -
  have "filter (query_ok statfs) (enumerate i ms) = enumerate i ms"
  proof (rule filter_True, clarify)
    fix a b assume "(a, b) \<in> set (enumerate i ms)"
    then have "i \<le> a" "a - i < length ms" "b = ms ! (a - i)"
      by (auto simp: in_set_enumerate_eq)
    with ok have "\<not> isl (statfs (i + (a - i)) (b ! 1))" by blast
    with \<open>i \<le> a\<close> show "query_ok statfs (a, b)" by (simp add: query_ok_def)
  qed
  then show ?thesis by (simp add: stats_from_def)
qed

lemma cancel_point_cancel_after: "cancel_point (cancel_after N) n = min N n"
proof -
  have "cancel_point (cancel_after N) n = min N n"
    if "N \<le> n"
    using that by (intro cancel_point_first [THEN trans]) (auto simp: cancel_after_def)
  moreover have "cancel_point (cancel_after N) n = min N n" if "\<not> N \<le> n"
    using that by (intro cancel_point_first [THEN trans]) (auto simp: cancel_after_def)
  ultimately show ?thesis by blast
qed

lemma usagePercent_90: "usagePercent 368640 409600 = Finite 90"
  by code_simp

lemma statfs_example_simps:
  "statfs_example i ''/denied'' = Inl 13"
  "statfs_example i ''/empty'' = Inr \<lparr>Blocks = 0, Bsize = 4096, Bavail = 0\<rparr>"
  "statfs_example i ''/odd'' = Inr \<lparr>Blocks = 0, Bsize = 4096, Bavail = 1\<rparr>"
  "statfs_example i ''/skew'' = Inr \<lparr>Blocks = 100, Bsize = 4096, Bavail = 200\<rparr>"
  "statfs_example i ''/'' = Inr \<lparr>Blocks = 100, Bsize = 4096, Bavail = 10\<rparr>"
  "statfs_example i ''/data'' = Inr \<lparr>Blocks = 100, Bsize = 4096, Bavail = 10\<rparr>"
  by (simp_all add: statfs_example_def)

lemma analyze_entry_example:
  "analyze_entry [d, p, t] \<lparr>Blocks = 100, Bsize = 4096, Bavail = 10\<rparr> =
     \<lparr>Device = d, Mount = p, Type = t, Total = 409600, Free = 40960, Used = 368640,
      Usage = Finite 90\<rparr>"
  by (simp add: analyze_entry_def usagePercent_90)

text \<open>
  Claim C10. On mount entries of three strings, the slice that \<^verbatim>\<open>analyze\<close> returns is the
  image, in the order of the input, of the mounts processed before a check sees the
  cancellation flag (a prefix of the input), restricted to those whose query succeeds:
  nothing is reordered, duplicated or inserted.
\<close>

theorem analyze_order_preserving:
  "well_formed mounts \<Longrightarrow>
   snd (analyze mounts statfs cancelled) =
     Inr (map (entry_of statfs)
           (filter (query_ok statfs)
             (enumerate 0 (take (cancel_point cancelled (length mounts)) mounts))))
   \<and> cancel_point cancelled (length mounts) \<le> length mounts"
  using analyze_result [of mounts statfs cancelled] cancel_point_le [of cancelled "length mounts"]
  by (simp add: stats_from_def)

theorem analyze_order_preserving_witness:
  "well_formed [[''/dev/sda1'', ''/'', ''ext4''], [''/dev/sdb1'', ''/denied'', ''ext4''],
                [''/dev/sdc1'', ''/data'', ''xfs''], [''/dev/sdd1'', ''/'', ''ext4'']]
   \<and> snd (analyze [[''/dev/sda1'', ''/'', ''ext4''], [''/dev/sdb1'', ''/denied'', ''ext4''],
                   [''/dev/sdc1'', ''/data'', ''xfs''], [''/dev/sdd1'', ''/'', ''ext4'']]
              statfs_example (cancel_after 3))
     = Inr [\<lparr>Device = ''/dev/sda1'', Mount = ''/'', Type = ''ext4'', Total = 409600,
             Free = 40960, Used = 368640, Usage = Finite 90\<rparr>,
            \<lparr>Device = ''/dev/sdc1'', Mount = ''/data'', Type = ''xfs'', Total = 409600,
             Free = 40960, Used = 368640, Usage = Finite 90\<rparr>]"
proof -
  let ?ms = "[[''/dev/sda1'', ''/'', ''ext4''], [''/dev/sdb1'', ''/denied'', ''ext4''],
              [''/dev/sdc1'', ''/data'', ''xfs''], [''/dev/sdd1'', ''/'', ''ext4'']]"
  have wf: "well_formed ?ms" by (simp add: well_formed_def)
  from analyze_order_preserving [OF wf, of statfs_example "cancel_after 3"] wf show ?thesis
    by (simp add: cancel_point_cancel_after enumerate_eq_zip query_ok_def entry_of_def
        statfs_example_simps analyze_entry_example upt_rec)
qed

text \<open>
  Claim C3, as stated, fails: a mount whose query fails is processed and leaves no entry.
  Here the query of the first of two mounts fails and cancellation is requested after
  that mount: one mount has been processed, and the result holds no entry, not one.
\<close>

theorem analyze_cancelled_partial_counterexample:
  "analyze [[''/dev/sdb1'', ''/denied'', ''ext4''], [''/dev/sda1'', ''/'', ''ext4'']]
     statfs_example (cancel_after 1)
   = ([LogProgress 0 2, LogWarning ''/denied'' 13, LogCancelled], Inr [])"
  by (simp add: analyze_def cancel_after_def statfs_example_simps)

text \<open>
  Claim C3, amended. When cancellation is requested after \<open>N\<close> of the mounts have been
  processed, so that the check before mount \<open>N\<close> is the first to see the flag (and no check
  sees it when \<open>N\<close> is the number of mounts), \<^verbatim>\<open>analyze\<close> returns the entries accumulated
  from these \<open>N\<close> mounts: one for each of them whose query succeeded, so at most \<open>N\<close>, and
  exactly \<open>N\<close> when none of these queries failed. It returns a slice and no error, and
  the last thing it logs is the cancellation it saw. It stops at that check: what the later
  queries would answer, and what later checks would see, has no effect on the result or
  on the log.
\<close>

theorem analyze_cancelled_partial:
  assumes wf: "well_formed mounts"
    and N: "N \<le> length mounts"
    and before: "\<forall>i<N. \<not> cancelled i"
    and seen: "N < length mounts \<longrightarrow> cancelled N"
  shows "snd (analyze mounts statfs cancelled) = Inr (stats_from statfs 0 (take N mounts))
    \<and> (N < length mounts \<longrightarrow>
          (\<exists>pre. fst (analyze mounts statfs cancelled) = pre @ [LogCancelled]))
    \<and> length (stats_from statfs 0 (take N mounts)) \<le> N
    \<and> ((\<forall>i<N. \<not> isl (statfs i (mounts ! i ! 1))) \<longrightarrow>
          length (stats_from statfs 0 (take N mounts)) = N)
    \<and> (\<forall>statfs' cancelled'.
          (\<forall>i<N. statfs' i = statfs i) \<and> (\<forall>i\<le>N. cancelled' i = cancelled i) \<longrightarrow>
          analyze mounts statfs' cancelled' = analyze mounts statfs cancelled)"
proof (intro conjI allI impI)
  have cp: "cancel_point cancelled (length mounts) = N"
    using N before seen by (rule cancel_point_first)
  then have cp': "length (takeWhile (\<lambda>j. \<not> cancelled j) [0..<0 + length mounts]) = N"
    by (simp add: cancel_point_def)
  show "snd (analyze mounts statfs cancelled) = Inr (stats_from statfs 0 (take N mounts))"
    using analyze_result [OF wf, of statfs cancelled] cp by simp
  show "\<exists>pre. fst (analyze mounts statfs cancelled) = pre @ [LogCancelled]"
    if "N < length mounts"
    unfolding analyze_def using wf that cp' by (intro analyze_loop_cancelled_log) simp_all
  show "length (stats_from statfs 0 (take N mounts)) \<le> N"
    using stats_from_length [of statfs 0 "take N mounts"] by simp
  show "length (stats_from statfs 0 (take N mounts)) = N"
    if "\<forall>i<N. \<not> isl (statfs i (mounts ! i ! 1))"
    using that N stats_from_all_ok [of "take N mounts" statfs 0] by simp
  fix statfs' cancelled'
  assume agree: "(\<forall>i<N. statfs' i = statfs i) \<and> (\<forall>i\<le>N. cancelled' i = cancelled i)"
  have "analyze mounts statfs' cancelled' = analyze mounts statfs' cancelled"
    unfolding analyze_def using agree cp' by (intro analyze_loop_flag_agree) simp
  also have "\<dots> = analyze mounts statfs cancelled"
    unfolding analyze_def using agree cp' by (intro analyze_loop_agree) simp
  finally show "analyze mounts statfs' cancelled' = analyze mounts statfs cancelled" .
qed

theorem analyze_cancelled_partial_witness:
  "well_formed [[''/dev/sda1'', ''/'', ''ext4''], [''/dev/sdb1'', ''/denied'', ''ext4''],
                [''/dev/sdc1'', ''/data'', ''xfs'']]
   \<and> cancel_after 2 2
   \<and> snd (analyze [[''/dev/sda1'', ''/'', ''ext4''], [''/dev/sdb1'', ''/denied'', ''ext4''],
                   [''/dev/sdc1'', ''/data'', ''xfs'']] statfs_example (cancel_after 2))
     = Inr [\<lparr>Device = ''/dev/sda1'', Mount = ''/'', Type = ''ext4'', Total = 409600,
             Free = 40960, Used = 368640, Usage = Finite 90\<rparr>]"
proof -
  let ?ms = "[[''/dev/sda1'', ''/'', ''ext4''], [''/dev/sdb1'', ''/denied'', ''ext4''],
              [''/dev/sdc1'', ''/data'', ''xfs'']]"
  have wf: "well_formed ?ms" by (simp add: well_formed_def)
  have N: "2 \<le> length ?ms" by simp
  have before: "\<forall>i<2. \<not> cancel_after 2 i" by (simp add: cancel_after_def)
  have seen: "cancel_after 2 2" by (simp add: cancel_after_def)
  then have seen': "2 < length ?ms \<longrightarrow> cancel_after 2 2" by simp
  from analyze_cancelled_partial [OF wf N before seen', of statfs_example]
  have "snd (analyze ?ms statfs_example (cancel_after 2)) =
      Inr (stats_from statfs_example 0 (take 2 ?ms))"
    by blast
  then show ?thesis
    using wf seen
    by (simp add: stats_from_Cons stats_from_Nil statfs_example_simps analyze_entry_example)
qed

text \<open>
  Claim C4. When the query of a mount that the loop reaches fails, a warning with its
  path and the error is logged, the mount contributes no entry, and the result consists
  of the entries of the mounts before it followed by the entries of all the mounts after
  it (up to the point where a cancellation is seen), as if the failing mount were absent.
\<close>

theorem analyze_skips_failed_mount:
  assumes wf: "well_formed mounts"
    and k: "k < cancel_point cancelled (length mounts)"
    and fail: "statfs k (mounts ! k ! 1) = Inl err"
  shows "LogWarning (mounts ! k ! 1) err \<in> set (fst (analyze mounts statfs cancelled))
    \<and> snd (analyze mounts statfs cancelled) =
        Inr (stats_from statfs 0 (take k mounts) @
             stats_from statfs (Suc k)
               (drop (Suc k) (take (cancel_point cancelled (length mounts)) mounts)))"
proof
  let ?N = "cancel_point cancelled (length mounts)"
  have N: "?N \<le> length mounts" by (rule cancel_point_le)
  show "LogWarning (mounts ! k ! 1) err \<in> set (fst (analyze mounts statfs cancelled))"
    unfolding analyze_def using wf k fail
    by (intro analyze_loop_warning) (simp_all add: cancel_point_def)
  define rest where "rest = drop (Suc k) (take ?N mounts)"
  have split: "take ?N mounts = take k mounts @ mounts ! k # rest"
    unfolding rest_def using id_take_nth_drop [of k "take ?N mounts"] k N
    by (simp add: min_def)
  have "stats_from statfs 0 (take ?N mounts) =
      stats_from statfs 0 (take k mounts) @ stats_from statfs (Suc k) rest"
    unfolding split using k N fail
    by (simp add: stats_from_append stats_from_Cons min_def)
  then show "snd (analyze mounts statfs cancelled) =
        Inr (stats_from statfs 0 (take k mounts) @
             stats_from statfs (Suc k) (drop (Suc k) (take ?N mounts)))"
    using analyze_result [OF wf, of statfs cancelled] by (simp add: rest_def)
qed

theorem analyze_skips_failed_mount_witness:
  "well_formed [[''/dev/sda1'', ''/'', ''ext4''], [''/dev/sdb1'', ''/denied'', ''ext4''],
                [''/dev/sdc1'', ''/data'', ''xfs'']]
   \<and> statfs_example 1 ''/denied'' = Inl 13
   \<and> LogWarning ''/denied'' 13 \<in> set (fst (analyze
         [[''/dev/sda1'', ''/'', ''ext4''], [''/dev/sdb1'', ''/denied'', ''ext4''],
          [''/dev/sdc1'', ''/data'', ''xfs'']] statfs_example (cancel_after 3)))
   \<and> snd (analyze [[''/dev/sda1'', ''/'', ''ext4''], [''/dev/sdb1'', ''/denied'', ''ext4''],
                   [''/dev/sdc1'', ''/data'', ''xfs'']] statfs_example (cancel_after 3))
     = Inr [\<lparr>Device = ''/dev/sda1'', Mount = ''/'', Type = ''ext4'', Total = 409600,
             Free = 40960, Used = 368640, Usage = Finite 90\<rparr>,
            \<lparr>Device = ''/dev/sdc1'', Mount = ''/data'', Type = ''xfs'', Total = 409600,
             Free = 40960, Used = 368640, Usage = Finite 90\<rparr>]"
proof -
  let ?ms = "[[''/dev/sda1'', ''/'', ''ext4''], [''/dev/sdb1'', ''/denied'', ''ext4''],
              [''/dev/sdc1'', ''/data'', ''xfs'']]"
  have wf: "well_formed ?ms" by (simp add: well_formed_def)
  have k: "1 < cancel_point (cancel_after 3) (length ?ms)"
    by (simp add: cancel_point_cancel_after)
  have fail: "statfs_example 1 (?ms ! 1 ! 1) = Inl 13"
    by (simp add: statfs_example_simps)
  from analyze_skips_failed_mount
    [where mounts = ?ms and k = 1 and cancelled = "cancel_after 3" and statfs = statfs_example
       and err = 13, OF wf k fail] wf
  show ?thesis
    by (simp add: cancel_point_cancel_after stats_from_Cons stats_from_Nil
        statfs_example_simps analyze_entry_example)
qed

text \<open>
  Claim C7. A query that reports \<^verbatim>\<open>blocks * blockSize = 0\<close> gives an entry with total 0 and
  usage 0; and every entry with total 0 in a slice that \<^verbatim>\<open>analyze\<close> returns has usage 0,
  which is neither NaN nor an infinity.
\<close>

theorem analyze_zero_total_usage:
  "(Blocks s * Bsize s = 0 \<longrightarrow>
      Total (analyze_entry m s) = 0 \<and> Usage (analyze_entry m s) = Finite 0)
   \<and> (snd (analyze mounts statfs cancelled) = Inr list \<and> fs \<in> set list \<and> Total fs = 0 \<longrightarrow>
        Usage fs = Finite 0 \<and> \<not> is_NaN (Usage fs) \<and> \<not> is_Inf (Usage fs))"
proof (intro conjI impI)
  assume "Blocks s * Bsize s = 0"
  then show "Total (analyze_entry m s) = 0" "Usage (analyze_entry m s) = Finite 0"
    by (simp_all add: analyze_entry_def Let_def)
next
  assume run: "snd (analyze mounts statfs cancelled) = Inr list \<and> fs \<in> set list \<and> Total fs = 0"
  then obtain m' st where "fs = analyze_entry m' st"
    using analyze_loop_members [of cancelled statfs "length mounts" 0 mounts "[]" "[]" list fs]
    by (auto simp: analyze_def)
  with run have "Usage fs = Finite 0"
    by (simp add: analyze_entry_def Let_def split: if_splits)
  then show "Usage fs = Finite 0" "\<not> is_NaN (Usage fs)" "\<not> is_Inf (Usage fs)"
    by (simp_all add: is_NaN_def is_Inf_def)
qed

theorem analyze_zero_total_usage_witness:
  "snd (analyze [[''none'', ''/empty'', ''ramfs'']] statfs_example (cancel_after 1))
     = Inr [\<lparr>Device = ''none'', Mount = ''/empty'', Type = ''ramfs'', Total = 0, Free = 0,
             Used = 0, Usage = Finite 0\<rparr>]
   \<and> \<not> is_NaN (Finite 0) \<and> \<not> is_Inf (Finite 0)"
proof -
  let ?fs = "\<lparr>Device = ''none'', Mount = ''/empty'', Type = ''ramfs'', Total = 0, Free = 0,
             Used = 0, Usage = Finite 0\<rparr>"
  have run: "snd (analyze [[''none'', ''/empty'', ''ramfs'']] statfs_example (cancel_after 1))
      = Inr [?fs]"
    by (simp add: analyze_def cancel_after_def statfs_example_simps analyze_entry_def)
  with analyze_zero_total_usage [of _ _ "[[''none'', ''/empty'', ''ramfs'']]" statfs_example
      "cancel_after 1" "[?fs]" ?fs]
  show ?thesis by simp
qed

section \<open>Rounding to binary64: properties\<close>

lemma pow2_powi: "pow2 e = power_int 2 e"
  by (simp add: pow2_def power_int_def inverse_eq_divide power_one_over)

lemma pow2_pos: "0 < pow2 e"
  by (simp add: pow2_def)

lemma pow2_add: "pow2 (a + b) = pow2 a * pow2 b"
  by (simp add: pow2_powi power_int_add)

lemma pow2_mono: "a \<le> b \<Longrightarrow> pow2 a \<le> pow2 b"
  by (simp add: pow2_powi power_int_increasing)

lemma pow2_nat: "0 \<le> e \<Longrightarrow> pow2 e = 2 ^ nat e"
  by (simp add: pow2_def)

lemma bitlen_pow2_bounds:
  assumes "0 < n"
  shows "pow2 (bitlen n - 1) \<le> of_int n \<and> of_int n < pow2 (bitlen n)"
proof -
  from bitlen_bounds [OF assms]
  have lo: "2 ^ nat (bitlen n - 1) \<le> n" and hi: "n < 2 ^ nat (bitlen n)"
    by simp_all
  have pos: "1 \<le> bitlen n"
  proof (rule ccontr)
    assume "\<not> 1 \<le> bitlen n"
    then have "nat (bitlen n) = 0" by simp
    with hi assms show False by simp
  qed
  have "(of_int (2 ^ nat (bitlen n - 1)) :: rat) \<le> of_int n"
    using lo by (simp only: of_int_le_iff)
  then have "pow2 (bitlen n - 1) \<le> of_int n"
    using pos by (simp add: pow2_nat)
  moreover have "(of_int n :: rat) < of_int (2 ^ nat (bitlen n))"
    using hi by (simp only: of_int_less_iff)
  then have "of_int n < pow2 (bitlen n)"
    using pos by (simp add: pow2_nat)
  ultimately show ?thesis by simp
qed

lemma ilog2_bounds:
  assumes "0 < q"
  shows "pow2 (ilog2 q) \<le> q \<and> q < pow2 (ilog2 q + 1)"
proof -
  obtain n d where nd: "quotient_of q = (n, d)" by (cases "quotient_of q")
  then have d: "0 < d" and q: "q = of_int n / of_int d"
    by (simp_all add: quotient_of_denom_pos quotient_of_div)
  with assms have n: "0 < n"
    by (simp add: zero_less_divide_iff)
  define e where "e = bitlen n - bitlen d"
  have dr: "(0::rat) < of_int d" using d by simp
  note bn = bitlen_pow2_bounds [OF n] and bd = bitlen_pow2_bounds [OF d]
  have upper: "q < pow2 (e + 1)"
  proof -
    have "of_int n < pow2 (e + 1) * pow2 (bitlen d - 1)"
      using bn by (simp add: e_def flip: pow2_add)
    also have "\<dots> \<le> pow2 (e + 1) * of_int d"
      using bd pow2_pos [of "e + 1"] by (simp add: mult_left_mono)
    finally show ?thesis
      using dr by (simp add: q pos_divide_less_eq)
  qed
  have lower: "pow2 (e - 1) \<le> q"
  proof -
    have "pow2 (e - 1) * of_int d \<le> pow2 (e - 1) * pow2 (bitlen d)"
      using bd pow2_pos [of "e - 1"] by (simp add: mult_left_mono)
    also have "\<dots> = pow2 (bitlen n - 1)"
      by (simp add: e_def flip: pow2_add)
    also have "\<dots> \<le> of_int n" using bn by simp
    finally show ?thesis
      using dr by (simp add: q pos_le_divide_eq)
  qed
  have il: "ilog2 q = (if pow2 e \<le> q then e else e - 1)"
    by (simp add: ilog2_def nd e_def Let_def)
  show ?thesis
  proof (cases "pow2 e \<le> q")
    case True
    with il upper show ?thesis by simp
  next
    case False
    with il lower show ?thesis by simp
  qed
qed

lemma ilog2_unique:
  assumes "pow2 e \<le> q" "q < pow2 (e + 1)"
  shows "ilog2 q = e"
proof -
  have q: "0 < q" using assms(1) pow2_pos [of e] by simp
  note b = ilog2_bounds [OF q]
  have "\<not> ilog2 q + 1 \<le> e"
  proof
    assume "ilog2 q + 1 \<le> e"
    then have "pow2 (ilog2 q + 1) \<le> pow2 e" by (rule pow2_mono)
    with b assms show False by simp
  qed
  moreover have "\<not> e + 1 \<le> ilog2 q"
  proof
    assume "e + 1 \<le> ilog2 q"
    then have "pow2 (e + 1) \<le> pow2 (ilog2 q)" by (rule pow2_mono)
    with b assms show False by simp
  qed
  ultimately show ?thesis by simp
qed

lemma ilog2_mono:
  assumes "0 < x" "x \<le> y"
  shows "ilog2 x \<le> ilog2 y"
proof (rule ccontr)
  assume "\<not> ilog2 x \<le> ilog2 y"
  then have "ilog2 y + 1 \<le> ilog2 x" by simp
  then have "pow2 (ilog2 y + 1) \<le> pow2 (ilog2 x)" by (rule pow2_mono)
  moreover have "0 < y" using assms by simp
  ultimately show False
    using ilog2_bounds [OF assms(1)] ilog2_bounds [OF \<open>0 < y\<close>] assms(2) by simp
qed

lemma round_half_even_bounds: "\<lfloor>q\<rfloor> \<le> round_half_even q \<and> round_half_even q \<le> \<lfloor>q\<rfloor> + 1"
  by (simp add: round_half_even_def Let_def)

lemma round_half_even_of_int: "round_half_even (of_int k) = k"
  by (simp add: round_half_even_def)

lemma round_half_even_mono:
  assumes "x \<le> y"
  shows "round_half_even x \<le> round_half_even y"
proof (cases "\<lfloor>x\<rfloor> = \<lfloor>y\<rfloor>")
  case True
  with assms show ?thesis
    by (auto simp: round_half_even_def Let_def)
next
  case False
  with assms have "\<lfloor>x\<rfloor> + 1 \<le> \<lfloor>y\<rfloor>"
    using floor_mono [OF assms] by simp
  with round_half_even_bounds [of x] round_half_even_bounds [of y] show ?thesis
    by linarith
qed

lemma round_binary64_bounds:
  assumes "0 < q"
  shows "pow2 (ilog2 q) \<le> round_binary64 q \<and> round_binary64 q \<le> pow2 (ilog2 q + 1)"
proof -
  define e where "e = ilog2 q"
  define u where "u = pow2 (e - 52)"
  have u: "0 < u" by (simp add: u_def pow2_pos)
  have lo: "pow2 e = of_int (2 ^ 52) * u"
    using pow2_add [of 52 "e - 52"] by (simp add: u_def pow2_nat)
  have hi: "pow2 (e + 1) = of_int (2 ^ 53) * u"
    using pow2_add [of 53 "e - 52"] by (simp add: u_def pow2_nat add.commute)
  from ilog2_bounds [OF assms] have "of_int (2 ^ 52) * u \<le> q" "q \<le> of_int (2 ^ 53) * u"
    by (simp_all add: e_def [symmetric] lo hi)
  with u have "of_int (2 ^ 52) \<le> q / u" "q / u \<le> of_int (2 ^ 53)"
    by (simp_all only: pos_le_divide_eq pos_divide_le_eq)
  then have "round_half_even (of_int (2 ^ 52)) \<le> round_half_even (q / u)"
    "round_half_even (q / u) \<le> round_half_even (of_int (2 ^ 53))"
    by (simp_all only: round_half_even_mono)
  then have "(of_int (2 ^ 52) :: rat) \<le> of_int (round_half_even (q / u))"
    "(of_int (round_half_even (q / u)) :: rat) \<le> of_int (2 ^ 53)"
    by (simp_all only: round_half_even_of_int of_int_le_iff)
  with u have "of_int (2 ^ 52) * u \<le> of_int (round_half_even (q / u)) * u"
    "of_int (round_half_even (q / u)) * u \<le> of_int (2 ^ 53) * u"
    by (simp_all only: mult_right_mono less_imp_le)
  moreover have "round_binary64 q = of_int (round_half_even (q / u)) * u"
    using assms by (simp add: round_binary64_def Let_def u_def e_def)
  ultimately show ?thesis
    by (simp only: e_def [symmetric] lo hi)
qed

lemma round_binary64_pos: "0 < q \<Longrightarrow> 0 < round_binary64 q"
  using round_binary64_bounds [of q] pow2_pos [of "ilog2 q"] by simp

lemma round_binary64_mono:
  assumes "0 < x" "x \<le> y"
  shows "round_binary64 x \<le> round_binary64 y"
proof (cases "ilog2 x = ilog2 y")
  case True
  define u where "u = pow2 (ilog2 y - 52)"
  have u: "0 < u" by (simp add: u_def pow2_pos)
  have y: "0 < y" using assms by simp
  from assms(2) u have "x / u \<le> y / u" by (simp add: divide_right_mono)
  then have "round_half_even (x / u) \<le> round_half_even (y / u)"
    by (rule round_half_even_mono)
  then have "(of_int (round_half_even (x / u)) :: rat) * u \<le> of_int (round_half_even (y / u)) * u"
    using u by (simp add: mult_right_mono)
  then show ?thesis
    using assms(1) y True by (simp add: round_binary64_def Let_def u_def)
next
  case False
  have y: "0 < y" using assms by simp
  from False ilog2_mono [OF assms] have "ilog2 x + 1 \<le> ilog2 y" by simp
  then have "pow2 (ilog2 x + 1) \<le> pow2 (ilog2 y)" by (rule pow2_mono)
  with round_binary64_bounds [OF assms(1)] round_binary64_bounds [OF y] show ?thesis
    by simp
qed

lemma round_binary64_1: "round_binary64 1 = 1"
  by code_simp

lemma round_binary64_100: "round_binary64 100 = 100"
  by code_simp

lemma usagePercent_ge_100:
  assumes "0 < total'" "total' \<le> used"
  shows "\<exists>r. usagePercent used total' = Finite r \<and> 100 \<le> r"
proof -
  define t :: rat where "t = of_int (uint total')"
  define u :: rat where "u = of_int (uint used)"
  have "0 < uint total'" "uint total' \<le> uint used"
    using assms by (simp_all add: word_less_def word_le_def)
  then have t: "0 < t" and tu: "t \<le> u"
    unfolding t_def u_def by (simp_all only: of_int_0_less_iff of_int_le_iff)
  have b: "0 < round_binary64 t" using t by (rule round_binary64_pos)
  have "round_binary64 t \<le> round_binary64 u" using t tu by (rule round_binary64_mono)
  with b have "1 \<le> round_binary64 u / round_binary64 t" by simp
  then have "round_binary64 1 \<le> round_binary64 (round_binary64 u / round_binary64 t)"
    by (intro round_binary64_mono) simp_all
  then have "100 \<le> round_binary64 (round_binary64 u / round_binary64 t) * 100"
    by (simp add: round_binary64_1)
  then have "round_binary64 100 \<le>
      round_binary64 (round_binary64 (round_binary64 u / round_binary64 t) * 100)"
    by (intro round_binary64_mono) simp_all
  then show ?thesis
    unfolding usagePercent_def t_def u_def by (simp only: round_binary64_100 float64.inject simp_thms)
qed

section \<open>Sorter: properties\<close>

lemma f64_not_gt_iff_ge:
  "\<not> is_NaN x \<Longrightarrow> \<not> is_NaN y \<Longrightarrow> \<not> f64_gt y x \<longleftrightarrow> f64_ge x y"
  by (cases x; cases y) (auto simp: is_NaN_def)

lemma f64_gt_irrefl: "\<not> f64_gt x x"
  by (cases x) simp_all

lemma f64_gt_trans: "f64_gt x y \<Longrightarrow> f64_gt y z \<Longrightarrow> f64_gt x z"
  by (cases x; cases y; cases z) simp_all

lemma f64_ge_trans: "f64_ge x y \<Longrightarrow> f64_ge y z \<Longrightarrow> f64_ge x z"
  by (cases x; cases y; cases z) simp_all

lemma f64_gt_neg_trans:
  assumes "\<not> is_NaN x" "\<not> is_NaN y" "\<not> is_NaN z" "\<not> f64_gt x y" "\<not> f64_gt y z"
  shows "\<not> f64_gt x z"
proof -
  from assms have "f64_ge y x" "f64_ge z y" by (simp_all flip: f64_not_gt_iff_ge)
  then have "f64_ge z x" by (rule f64_ge_trans [rotated])
  with assms show ?thesis by (simp flip: f64_not_gt_iff_ge)
qed

lemma transitive_ordering_linorder:
  fixes key :: "'a \<Rightarrow> 'k::linorder"
  shows "transitive_ordering (\<lambda>a b. key a < key b) A"
    and "transitive_ordering (\<lambda>a b. key b < key a) A"
  unfolding transitive_ordering_def by (simp_all add: not_less) (meson less_trans order_trans)+

lemma sortFS_less_transitive_ordering:
  assumes "sortBy = ''usage'' \<Longrightarrow> \<forall>fs \<in> A. \<not> is_NaN (Usage fs)"
  shows "transitive_ordering (sortFS_less sortBy) A"
proof -
  consider (usage) "sortBy = ''usage''" | (size) "sortBy = ''size''"
    | (mount) "sortBy \<noteq> ''usage''" "sortBy \<noteq> ''size''"
    by blast
  then show ?thesis
  proof cases
    case usage
    with assms have nan: "\<forall>fs \<in> A. \<not> is_NaN (Usage fs)" by simp
    have "sortFS_less sortBy = (\<lambda>a b. f64_gt (Usage a) (Usage b))"
      by (simp add: sortFS_less_def usage fun_eq_iff)
    moreover have "transitive_ordering (\<lambda>a b. f64_gt (Usage a) (Usage b)) A"
      unfolding transitive_ordering_def using nan
      by (simp add: f64_gt_irrefl) (meson f64_gt_trans f64_gt_neg_trans)
    ultimately show ?thesis by simp
  next
    case size
    have "sortFS_less sortBy = (\<lambda>a b. Total b < Total a)"
      by (simp add: sortFS_less_def size fun_eq_iff)
    then show ?thesis by (simp add: transitive_ordering_linorder)
  next
    case mount
    have "sortFS_less sortBy = (\<lambda>a b. Mount a < Mount b)"
      using mount by (simp add: sortFS_less_def fun_eq_iff)
    then show ?thesis by (simp add: transitive_ordering_linorder)
  qed
qed

lemma sorted_rearrangement_exists:
  assumes tot: "\<forall>a \<in> A. \<forall>b \<in> A. R a b \<or> R b a"
    and tr: "\<forall>a \<in> A. \<forall>b \<in> A. \<forall>c \<in> A. R a b \<longrightarrow> R b c \<longrightarrow> R a c"
    and sub: "set xs \<subseteq> A"
  shows "\<exists>ys. mset ys = mset xs \<and> sorted_wrt R ys"
  using sub
proof (induction xs)
  case Nil
  show ?case by simp
next
  case (Cons x xs)
  then obtain ys where ys: "mset ys = mset xs" "sorted_wrt R ys" by auto
  from Cons.prems mset_eq_setD [OF ys(1)] have inA: "x \<in> A" "set ys \<subseteq> A" by simp_all
  define lows where "lows = takeWhile (\<lambda>y. R y x) ys"
  define highs where "highs = dropWhile (\<lambda>y. R y x) ys"
  have ys_eq: "ys = lows @ highs" by (simp add: lows_def highs_def)
  have lows: "\<forall>a \<in> set lows. R a x"
    unfolding lows_def by (auto dest: set_takeWhileD)
  have highs: "\<forall>b \<in> set highs. R x b"
  proof (cases highs)
    case Nil
    then show ?thesis by simp
  next
    case (Cons z zs)
    then have "\<not> R z x"
      using hd_dropWhile [of "\<lambda>y. R y x" ys] by (simp add: highs_def)
    moreover have z: "z \<in> A" using inA(2) ys_eq Cons by auto
    ultimately have xz: "R x z" using tot inA(1) by blast
    have "R x b" if "b \<in> set zs" for b
    proof -
      from ys(2) ys_eq Cons that have "R z b" by (simp add: sorted_wrt_append)
      moreover from that inA(2) ys_eq Cons have "b \<in> A" by auto
      ultimately show ?thesis using xz tr inA(1) z by blast
    qed
    with xz Cons show ?thesis by auto
  qed
  have "sorted_wrt R lows" "sorted_wrt R highs" "\<forall>a \<in> set lows. \<forall>b \<in> set highs. R a b"
    using ys(2) unfolding ys_eq by (simp_all add: sorted_wrt_append)
  with lows highs have "sorted_wrt R (lows @ x # highs)"
    by (simp add: sorted_wrt_append)
  moreover have "mset (lows @ x # highs) = mset (x # xs)"
    using ys(1) unfolding ys_eq by simp
  ultimately show ?case by blast
qed

lemma sort_Slice_returns: "\<exists>x'. sort_Slice less' x x'"
proof (cases "transitive_ordering less' (set x)")
  case False
  then have "sort_Slice less' x x" by (simp add: sort_Slice_def)
  then show ?thesis ..
next
  case True
  have irr: "\<not> less' a a" if "a \<in> set x" for a
    using True that unfolding transitive_ordering_def by simp
  have tr: "less' a c" if "a \<in> set x" "b \<in> set x" "c \<in> set x" "less' a b" "less' b c" for a b c
    using True that unfolding transitive_ordering_def by meson
  have ntr: "\<not> less' a c"
    if "a \<in> set x" "b \<in> set x" "c \<in> set x" "\<not> less' a b" "\<not> less' b c" for a b c
    using True that unfolding transitive_ordering_def by meson
  have tot: "\<forall>a \<in> set x. \<forall>b \<in> set x. \<not> less' b a \<or> \<not> less' a b"
  proof (intro ballI)
    fix a b assume ab: "a \<in> set x" "b \<in> set x"
    show "\<not> less' b a \<or> \<not> less' a b"
    proof (rule ccontr)
      assume "\<not> (\<not> less' b a \<or> \<not> less' a b)"
      then have "less' a b" "less' b a" by simp_all
      with ab have "less' a a" by (intro tr [of a b a])
      with irr [OF ab(1)] show False ..
    qed
  qed
  have ntr': "\<forall>a \<in> set x. \<forall>b \<in> set x. \<forall>c \<in> set x.
      \<not> less' b a \<longrightarrow> \<not> less' c b \<longrightarrow> \<not> less' c a"
    using ntr by blast
  have "\<exists>ys. mset ys = mset x \<and> sorted_wrt (\<lambda>a b. \<not> less' b a) ys"
    using tot ntr' subset_refl by (rule sorted_rearrangement_exists)
  then obtain ys where "mset ys = mset x" "sorted_wrt (\<lambda>a b. \<not> less' b a) ys"
    by blast
  then have "sort_Slice less' x ys" by (simp add: sort_Slice_def)
  then show ?thesis ..
qed

lemma sortFS_returns: "\<exists>list'. sortFS list sortBy list'"
  unfolding sortFS_def by (rule sort_Slice_returns)

section \<open>Derived sizes: properties\<close>

lemma analyze_entry_fields:
  "Used (analyze_entry m s) = Total (analyze_entry m s) - Free (analyze_entry m s)"
  "Total (analyze_entry m s) = Blocks s * Bsize s"
  "Free (analyze_entry m s) = Bavail s * Bsize s"
  "Usage (analyze_entry m s) =
     (if 0 < Total (analyze_entry m s)
      then usagePercent (Used (analyze_entry m s)) (Total (analyze_entry m s)) else Finite 0)"
  by (simp_all add: analyze_entry_def Let_def)

lemma analyze_members:
  assumes "snd (analyze mounts statfs cancelled) = Inr list" "fs \<in> set list"
  shows "\<exists>i m s. m \<in> set mounts \<and> statfs i (m ! 1) = Inr s \<and> fs = analyze_entry m s"
  using analyze_loop_members [of cancelled statfs "length mounts" 0 mounts "[]" "[]" list fs] assms
  by (auto simp: analyze_def)

lemma sortFS_mset: "sortFS list sortBy list' \<Longrightarrow> mset list' = mset list"
  by (simp add: sortFS_def sort_Slice_def)

lemma display_unchanged: "snd (display humanize FormatFloat list config) = list"
  by (simp add: display_def displayJSON_def displayCSV_def displayTable_def)

lemma word_sub_wraps:
  fixes a b :: uint64
  assumes "a < b"
  shows "uint (a - b) = 2 ^ 64 - (uint b - uint a)" and "a < a - b"
proof -
  have ab: "uint a < uint b" using assms by (simp add: word_less_def)
  have b: "uint b < 2 ^ 64" using uint_bounded [of b] by simp
  have a: "0 \<le> uint a" by simp
  from ab b a have range: "0 \<le> uint a - uint b + 2 ^ 64" "uint a - uint b + 2 ^ 64 < 2 ^ 64"
    by linarith+
  have "uint (a - b) = (uint a - uint b) mod 2 ^ 64"
    by (simp add: uint_word_ariths)
  also have "\<dots> = (uint a - uint b + 2 ^ 64) mod 2 ^ 64"
    by simp
  also have "\<dots> = uint a - uint b + 2 ^ 64"
    using range by (rule mod_pos_pos_trivial)
  finally show eq: "uint (a - b) = 2 ^ 64 - (uint b - uint a)" by simp
  with b ab show "a < a - b" unfolding word_less_def by linarith
qed

lemma usagePercent_skew: "usagePercent (- 409600) 409600 = Finite 4503599627370396"
  by code_simp

text \<open>
  With \<open>2 ^ 64 - 2\<close> blocks of one byte and \<open>2 ^ 64 - 1\<close> of them available, \<open>Used\<close> wraps to
  \<open>2 ^ 64 - 1\<close>; both \<open>Used\<close> and \<open>Total\<close> convert to the \<^verbatim>\<open>float64\<close> \<open>2 ^ 64\<close>, and the usage is
  exactly 100.
\<close>

lemma usagePercent_exactly_100: "usagePercent (- 1) 18446744073709551614 = Finite 100"
  by code_simp

lemma analyze_entry_usage_exactly_100:
  "analyze_entry [d, p, t] \<lparr>Blocks = 18446744073709551614, Bsize = 1, Bavail = 18446744073709551615\<rparr>
     = \<lparr>Device = d, Mount = p, Type = t, Total = 18446744073709551614,
        Free = 18446744073709551615, Used = 18446744073709551615, Usage = Finite 100\<rparr>"
  by (simp add: analyze_entry_def Let_def usagePercent_exactly_100)

text \<open>
  Claim C8. Every entry of a slice that \<^verbatim>\<open>analyze\<close> returns has
  \<open>Used = Total - Free\<close> (in \<^verbatim>\<open>uint64\<close> arithmetic), where \<open>Total\<close> and \<open>Free\<close> are the
  products of the block size with the block count and with the count of available blocks
  that one successful query reported. The sorter only rearranges the entries, and the
  renderer leaves the slice as it finds it, so the entry is still there, unchanged, after
  both.
\<close>

theorem analyze_used_is_total_minus_free:
  assumes "snd (analyze mounts statfs cancelled) = Inr list" "fs \<in> set list"
  shows "Used fs = Total fs - Free fs
    \<and> (\<exists>i m s. m \<in> set mounts \<and> statfs i (m ! 1) = Inr s \<and>
          Total fs = Blocks s * Bsize s \<and> Free fs = Bavail s * Bsize s)
    \<and> (\<forall>sortBy list' humanize FormatFloat config.
          sortFS list sortBy list' \<longrightarrow>
          mset list' = mset list \<and> fs \<in> set list' \<and>
          snd (display humanize FormatFloat list' config) = list')"
proof (intro conjI allI impI)
  from analyze_members [OF assms] obtain i m s
    where m: "m \<in> set mounts" "statfs i (m ! 1) = Inr s" and fs: "fs = analyze_entry m s"
    by blast
  show "Used fs = Total fs - Free fs"
    unfolding fs by (rule analyze_entry_fields)
  show "\<exists>i m s. m \<in> set mounts \<and> statfs i (m ! 1) = Inr s \<and>
          Total fs = Blocks s * Bsize s \<and> Free fs = Bavail s * Bsize s"
    using m unfolding fs by (auto simp: analyze_entry_fields)
next
  fix sortBy list' humanize FormatFloat config
  assume "sortFS list sortBy list'"
  then show perm: "mset list' = mset list" by (rule sortFS_mset)
  from mset_eq_setD [OF perm] assms(2) show "fs \<in> set list'" by simp
  show "snd (display humanize FormatFloat list' config) = list'"
    by (rule display_unchanged)
qed

theorem analyze_used_is_total_minus_free_witness:
  "snd (analyze [[''/dev/sda1'', ''/'', ''ext4'']] statfs_example (cancel_after 1))
     = Inr [\<lparr>Device = ''/dev/sda1'', Mount = ''/'', Type = ''ext4'', Total = 409600,
             Free = 40960, Used = 368640, Usage = Finite 90\<rparr>]
   \<and> (368640 :: uint64) = 409600 - 40960"
proof -
  let ?fs = "\<lparr>Device = ''/dev/sda1'', Mount = ''/'', Type = ''ext4'', Total = 409600,
             Free = 40960, Used = 368640, Usage = Finite 90\<rparr>"
  have run: "snd (analyze [[''/dev/sda1'', ''/'', ''ext4'']] statfs_example (cancel_after 1))
      = Inr [?fs]"
    by (simp add: analyze_def cancel_after_def statfs_example_simps analyze_entry_example)
  have "?fs \<in> set [?fs]" by simp
  from analyze_used_is_total_minus_free [OF run this] run show ?thesis
    by simp
qed

text \<open>
  Claim C9, as stated, fails: when the query reports no blocks and one available block,
  \<open>Free\<close> exceeds \<open>Total\<close> and \<open>Used\<close> wraps around, but \<open>Total\<close> is 0, so the guard of line
  159 leaves the usage at 0, which does not exceed 100.
\<close>

theorem analyze_used_wraps_counterexample:
  "snd (analyze [[''none'', ''/odd'', ''ramfs'']] statfs_example (cancel_after 1))
     = Inr [\<lparr>Device = ''none'', Mount = ''/odd'', Type = ''ramfs'', Total = 0, Free = 4096,
             Used = 18446744073709547520, Usage = Finite 0\<rparr>]
   \<and> (0 :: uint64) < 4096
   \<and> \<not> f64_gt (Finite 0) (Finite 100)"
  by (simp add: analyze_def cancel_after_def statfs_example_simps analyze_entry_def)

text \<open>
  Claim C9, amended. For every entry that \<^verbatim>\<open>analyze\<close> returns with \<open>Free\<close> greater than
  \<open>Total\<close>, the subtraction wraps: \<open>Used\<close> is \<open>2 ^ 64 - (Free - Total)\<close>, which is greater than
  \<open>Total\<close>. When \<open>Total\<close> is not 0 the usage is a finite number of at least 100 (the
  conversions of \<open>Used\<close> and \<open>Total\<close> to \<^verbatim>\<open>float64\<close> may round to the same value, which gives
  exactly 100: \<open>analyze_entry_usage_exactly_100\<close>); when \<open>Total\<close> is 0 the usage is 0.
\<close>

theorem analyze_used_wraps:
  assumes "snd (analyze mounts statfs cancelled) = Inr list" "fs \<in> set list"
    and "Total fs < Free fs"
  shows "uint (Used fs) = 2 ^ 64 - (uint (Free fs) - uint (Total fs))
    \<and> Total fs < Used fs
    \<and> (Total fs \<noteq> 0 \<longrightarrow> (\<exists>r. Usage fs = Finite r \<and> 100 \<le> r))
    \<and> (Total fs = 0 \<longrightarrow> Usage fs = Finite 0)"
proof -
  from analyze_members [OF assms(1,2)] obtain m s where fs: "fs = analyze_entry m s"
    by blast
  have used: "Used fs = Total fs - Free fs"
    unfolding fs by (rule analyze_entry_fields)
  have usage: "Usage fs = (if 0 < Total fs then usagePercent (Used fs) (Total fs) else Finite 0)"
    unfolding fs by (rule analyze_entry_fields)
  note wrap = word_sub_wraps [OF assms(3), folded used]
  have "\<exists>r. Usage fs = Finite r \<and> 100 \<le> r" if "Total fs \<noteq> 0"
  proof -
    from that have pos: "0 < Total fs" by (simp add: word_neq_0_conv)
    from wrap(2) have "Total fs \<le> Used fs" by simp
    from usagePercent_ge_100 [OF pos this] pos usage show ?thesis by simp
  qed
  with wrap usage show ?thesis by simp
qed

theorem analyze_used_wraps_witness:
  "snd (analyze [[''/dev/sdz'', ''/skew'', ''ext4'']] statfs_example (cancel_after 1))
     = Inr [\<lparr>Device = ''/dev/sdz'', Mount = ''/skew'', Type = ''ext4'', Total = 409600,
             Free = 819200, Used = 18446744073709142016, Usage = Finite 4503599627370396\<rparr>]
   \<and> (409600 :: uint64) < 819200
   \<and> uint (18446744073709142016 :: uint64) = 2 ^ 64 - (819200 - 409600)
   \<and> (100 :: rat) \<le> 4503599627370396"
proof -
  let ?fs = "\<lparr>Device = ''/dev/sdz'', Mount = ''/skew'', Type = ''ext4'', Total = 409600,
             Free = 819200, Used = 18446744073709142016, Usage = Finite 4503599627370396\<rparr>"
  have run: "snd (analyze [[''/dev/sdz'', ''/skew'', ''ext4'']] statfs_example (cancel_after 1))
      = Inr [?fs]"
    by (simp add: analyze_def cancel_after_def statfs_example_simps analyze_entry_def
        usagePercent_skew)
  have mem: "?fs \<in> set [?fs]" and less: "Total ?fs < Free ?fs" by simp_all
  from analyze_used_wraps [OF run mem less] run show ?thesis
    by simp
qed

section \<open>Sorter: the claim\<close>

lemma sortFS_less_cases:
  "sortBy = ''usage'' \<Longrightarrow> sortFS_less sortBy = (\<lambda>a b. f64_gt (Usage a) (Usage b))"
  "sortBy = ''size'' \<Longrightarrow> sortFS_less sortBy = (\<lambda>a b. Total b < Total a)"
  "sortBy \<noteq> ''usage'' \<Longrightarrow> sortBy \<noteq> ''size'' \<Longrightarrow> sortFS_less sortBy = (\<lambda>a b. Mount a < Mount b)"
  by (simp_all add: sortFS_less_def fun_eq_iff)

lemma disks_sorted_mset: "mset disks_sorted = mset disks"
  by (simp add: disks_def disks_sorted_def)

lemma disks_sorted_by_usage: "sortFS disks ''usage'' disks_sorted"
  unfolding sortFS_def sort_Slice_def
  by (simp add: disks_sorted_mset) (simp add: disks_sorted_def sortFS_less_def disk_def big_disk_def)

lemma disks_sorted_by_size: "sortFS disks ''size'' disks_sorted"
  unfolding sortFS_def sort_Slice_def
  by (simp add: disks_sorted_mset) (simp add: disks_sorted_def sortFS_less_def disk_def big_disk_def)

text \<open>
  Claim C1, as stated, fails: the code calls \<^verbatim>\<open>sort.Slice\<close>, which may reorder entries of
  equal key. For the keys \<^verbatim>\<open>usage\<close> and \<^verbatim>\<open>size\<close>, \<open>disks_sorted\<close> is a result the call may
  leave for \<open>disks\<close>, and the twelve entries of equal usage (equal size) do not stand in
  it in their original order.
\<close>

theorem sortFS_stable_counterexample:
  "sortFS disks ''usage'' disks_sorted \<and> \<not> stable_on Usage (Finite 90) disks disks_sorted
   \<and> sortFS disks ''size'' disks_sorted \<and> \<not> stable_on Total 409600 disks disks_sorted"
  using disks_sorted_by_usage disks_sorted_by_size
  by (simp add: stable_on_def disks_def disks_sorted_def disk_def big_disk_def)

text \<open>
  Claim C1, amended. Whatever \<^verbatim>\<open>sortFS\<close> leaves in the slice is a rearrangement of the
  input, ordered by the chosen key: descending total for \<^verbatim>\<open>size\<close>, descending usage for
  \<^verbatim>\<open>usage\<close> (when no usage is NaN, as is the case for the analyzer's entries), ascending
  mount path for \<^verbatim>\<open>mount\<close> and for every other key. Nothing is promised about the
  relative order of entries of equal key. (The call always leaves some such result:
  \<open>sortFS_returns\<close>.)
\<close>

theorem sortFS_orders_by_key:
  assumes "sortFS list sortBy list'"
  shows "mset list' = mset list
    \<and> (sortBy = ''size'' \<longrightarrow> sorted_wrt (\<lambda>a b. Total b \<le> Total a) list')
    \<and> (sortBy = ''usage'' \<and> list_all (\<lambda>fs. \<not> is_NaN (Usage fs)) list \<longrightarrow>
          sorted_wrt (\<lambda>a b. f64_ge (Usage a) (Usage b)) list')
    \<and> (sortBy \<noteq> ''size'' \<and> sortBy \<noteq> ''usage'' \<longrightarrow>
          sorted_wrt (\<lambda>a b. Mount a \<le> Mount b) list')"
proof (intro conjI impI)
  from assms show perm: "mset list' = mset list"
    by (simp add: sortFS_def sort_Slice_def)
  note same = mset_eq_setD [OF perm]
  have sorted: "sorted_wrt (\<lambda>a b. \<not> sortFS_less sortBy b a) list'"
    if "sortBy = ''usage'' \<Longrightarrow> \<forall>fs \<in> set list. \<not> is_NaN (Usage fs)"
    using assms sortFS_less_transitive_ordering [of sortBy "set list"] that
    by (simp add: sortFS_def sort_Slice_def)
  show "sorted_wrt (\<lambda>a b. Total b \<le> Total a) list'" if "sortBy = ''size''"
    using sorted that by (simp add: sortFS_less_cases(2) not_less)
  show "sorted_wrt (\<lambda>a b. Mount a \<le> Mount b) list'"
    if "sortBy \<noteq> ''size'' \<and> sortBy \<noteq> ''usage''"
    using sorted that by (simp add: sortFS_less_cases(3) not_less)
  show "sorted_wrt (\<lambda>a b. f64_ge (Usage a) (Usage b)) list'"
    if "sortBy = ''usage'' \<and> list_all (\<lambda>fs. \<not> is_NaN (Usage fs)) list"
  proof -
    from that have nan: "\<forall>fs \<in> set list. \<not> is_NaN (Usage fs)"
      by (simp add: list_all_iff)
    with sorted that have "sorted_wrt (\<lambda>a b. \<not> f64_gt (Usage b) (Usage a)) list'"
      by (simp add: sortFS_less_cases(1))
    then show ?thesis
    proof (rule sorted_wrt_mono_rel [rotated])
      fix a b assume "a \<in> set list'" "b \<in> set list'" "\<not> f64_gt (Usage b) (Usage a)"
      with nan same show "f64_ge (Usage a) (Usage b)"
        by (simp add: f64_not_gt_iff_ge)
    qed
  qed
qed

theorem sortFS_orders_by_key_witness:
  "sortFS disks ''usage'' disks_sorted
   \<and> list_all (\<lambda>fs. \<not> is_NaN (Usage fs)) disks
   \<and> mset disks_sorted = mset disks
   \<and> sorted_wrt (\<lambda>a b. f64_ge (Usage a) (Usage b)) disks_sorted"
proof -
  have "list_all (\<lambda>fs. \<not> is_NaN (Usage fs)) disks"
    by (simp add: disks_def disk_def big_disk_def is_NaN_def)
  with sortFS_orders_by_key [OF disks_sorted_by_usage] disks_sorted_by_usage
  show ?thesis by simp
qed

section \<open>Renderer: the integer branches of fmtBytes\<close>

text \<open>
  Claim C2 is about the humanized rendering. Below 1024 bytes, and with humanizing off,
  \<^verbatim>\<open>fmtBytes\<close> prints the decimal digits of the count; from 1024 on the unit and the digits
  come from floating-point library calls whose results are not defined here, so the claim
  is not stated.
\<close>

lemma fmtBytes_integer_branches:
  "fmtBytes humanize b False = decimal (unat b)"
  "b < 1024 \<Longrightarrow> fmtBytes humanize b True = decimal (unat b) @ '' B''"
  "fmtBytes humanize 0 True = ''0 B''"
  "fmtBytes humanize 1023 True = ''1023 B''"
  by (simp_all add: fmtBytes_def)

end
